theory Spec2Isabelle
  imports Main "HOL-Library.Word"
begin

section \<open>Strings of the page script\<close>

text \<open>
  A JavaScript string is a sequence of 16-bit code units. The script of
  \<^verbatim>\<open>flask_app/static/app.js\<close> uses three string primitives:
  \<^verbatim>\<open>String.prototype.split\<close> with the separator \<^verbatim>\<open>" "\<close>,
  \<^verbatim>\<open>String.prototype.trim\<close> and \<^verbatim>\<open>Array.prototype.join\<close> with the
  separator \<^verbatim>\<open>""\<close>. They are modelled after ECMAScript.
\<close>

type_synonym jschar = "16 word"
type_synonym jsstring = "jschar list"

definition ascii :: "string \<Rightarrow> jsstring" where
  "ascii s = map (\<lambda>c. of_nat (of_char c)) s"

definition SP :: jschar where
  "SP = 0x20"

text \<open>
  \<^verbatim>\<open>trim\<close> strips ECMAScript WhiteSpace and LineTerminator code units from both
  ends: TAB, LF, VT, FF, CR, SP, NBSP, the Unicode space separators, LS, PS and
  ZWNBSP.
\<close>

definition is_ws :: "jschar \<Rightarrow> bool" where
  "is_ws c = (c \<in> set [0x9, 0xA, 0xB, 0xC, 0xD, 0x20, 0xA0, 0x1680,
     0x2000, 0x2001, 0x2002, 0x2003, 0x2004, 0x2005, 0x2006, 0x2007, 0x2008,
     0x2009, 0x200A, 0x2028, 0x2029, 0x202F, 0x205F, 0x3000, 0xFEFF])"

definition trim :: "jsstring \<Rightarrow> jsstring" where
  "trim s = rev (dropWhile is_ws (rev (dropWhile is_ws s)))"

text \<open>
  \<^verbatim>\<open>text.split(" ")\<close>: the string is cut at every occurrence of the separator
  and no segment is dropped; the empty string gives one empty segment.
\<close>

fun split :: "jsstring \<Rightarrow> jsstring list" where
  "split [] = [[]]"
| "split (c # cs) =
     (if c = SP then [] # split cs
      else (c # hd (split cs)) # tl (split cs))"

text \<open>\<^verbatim>\<open>parts.join("")\<close> is concatenation.\<close>

definition join :: "jsstring list \<Rightarrow> jsstring" where
  "join parts = concat parts"

text \<open>The inverse reading, \<^verbatim>\<open>words.join(" ")\<close>: the words with one space
  between neighbours.\<close>

fun unsplit :: "jsstring list \<Rightarrow> jsstring" where
  "unsplit [] = []"
| "unsplit [w] = w"
| "unsplit (w # v # ws) = w @ SP # unsplit (v # ws)"

section \<open>The page and the script's globals\<close>

text \<open>
  A span of the editable sentence: its \<^verbatim>\<open>textContent\<close>, its
  \<^verbatim>\<open>dataset.index\<close> and its \<^verbatim>\<open>onclick\<close> handler. Every handler the
  script installs is the closure \<^verbatim>\<open>() => redactWord(span, w)\<close> on the span
  itself, so a handler is the captured word \<open>w\<close>; \<open>None\<close> is \<^verbatim>\<open>null\<close>.
\<close>

record span_el =
  textContent :: jsstring
  dataset_index :: nat
  onclick :: "jsstring option"

text \<open>
  An entry of \<^verbatim>\<open>undoStack\<close>, \<^verbatim>\<open>{ span, original }\<close>. The span object is
  named by its position among the spans of \<^verbatim>\<open>sentenceContainer\<close>: the
  container is only ever rebuilt by \<^verbatim>\<open>renderEditableSentence\<close>, which empties
  the stack in the same call.
\<close>

record undo_entry =
  span :: nat
  original :: jsstring

datatype jsid = IdNum int | IdStr jsstring

text \<open>JavaScript truthiness of an identifier: \<^verbatim>\<open>null\<close>, \<^verbatim>\<open>0\<close> and
  \<^verbatim>\<open>""\<close> are falsy.\<close>

fun truthy_id :: "jsid option \<Rightarrow> bool" where
  "truthy_id None = False"
| "truthy_id (Some (IdNum n)) = (n \<noteq> 0)"
| "truthy_id (Some (IdStr s)) = (s \<noteq> [])"

text \<open>The record served by \<^verbatim>\<open>/next-sentence/1\<close>; an absent or \<^verbatim>\<open>null\<close>
  field is \<open>None\<close>.\<close>

record sentence_record =
  sentence_id :: jsid
  note_id :: jsid
  index :: int
  original_sentence :: jsstring
  llm_sentence :: "jsstring option"
  final_sentence :: "jsstring option"

datatype display = Shown | Hidden

text \<open>
  The state: the spans of \<^verbatim>\<open>#editable-sentence\<close> in document order (each is
  followed by a text node holding one space, which the script never changes),
  the text of \<^verbatim>\<open>#original-sentence\<close>, the globals \<^verbatim>\<open>undoStack\<close> (the last
  element is the top) and \<^verbatim>\<open>currentSentenceId\<close>, and the other elements the
  script writes. \<open>alerts\<close> records the calls of \<^verbatim>\<open>alert\<close>.
\<close>

record state =
  sentenceContainer :: "span_el list"
  originalContainer :: jsstring
  stateDiv_sentenceId :: "jsid option"
  undoStack :: "undo_entry list"
  currentSentenceId :: "jsid option"
  edit_box :: display
  sentence_edit :: jsstring
  feedback_message :: jsstring
  feedback_display :: display
  markGood_disabled :: bool
  debug_info :: "(jsid \<times> jsid \<times> int) option"
  alerts :: "jsstring list"

definition REDACT :: jsstring where
  "REDACT = ascii ''[REDACT]''"

section \<open>The functions of the script\<close>

text \<open>The body of the \<^verbatim>\<open>forEach\<close> of \<^verbatim>\<open>renderEditableSentence\<close>: the
  span of word \<open>w\<close> at index \<open>i\<close>.\<close>

definition new_span :: "nat \<Rightarrow> jsstring \<Rightarrow> span_el" where
  "new_span i w = \<lparr>textContent = w, dataset_index = i, onclick = Some w\<rparr>"

fun appendWords :: "nat \<Rightarrow> jsstring list \<Rightarrow> span_el list \<Rightarrow> span_el list" where
  "appendWords i [] c = c"
| "appendWords i (w # ws) c = appendWords (Suc i) ws (c @ [new_span i w])"

definition renderEditableSentence :: "jsstring \<Rightarrow> state \<Rightarrow> state" where
  "renderEditableSentence text s =
     s\<lparr>sentenceContainer := appendWords 0 (split text) [], undoStack := []\<rparr>"

definition redactWord :: "nat \<Rightarrow> jsstring \<Rightarrow> state \<Rightarrow> state" where
  "redactWord sp originalWord s =
     s\<lparr>undoStack := undoStack s @ [\<lparr>span = sp, original = originalWord\<rparr>],
       sentenceContainer := (sentenceContainer s)
         [sp := (sentenceContainer s ! sp)\<lparr>textContent := REDACT, onclick := None\<rparr>]\<rparr>"

text \<open>A click on the span at position \<open>p\<close> runs its handler, if it has one.
  This is the only call of \<^verbatim>\<open>redactWord\<close>.\<close>

definition click :: "nat \<Rightarrow> state \<Rightarrow> state" where
  "click p s =
     (if p < length (sentenceContainer s) then
        (case onclick (sentenceContainer s ! p) of
           None \<Rightarrow> s
         | Some w \<Rightarrow> redactWord p w s)
      else s)"

definition undoRedact :: "state \<Rightarrow> state" where
  "undoRedact s =
     (if undoStack s = [] then s
      else
        let e = last (undoStack s) in
        s\<lparr>undoStack := butlast (undoStack s),
          sentenceContainer := (sentenceContainer s)
            [span e := (sentenceContainer s ! span e)
               \<lparr>textContent := original e, onclick := Some (original e)\<rparr>]\<rparr>)"

text \<open>\<^verbatim>\<open>Array.from(sentenceContainer.childNodes).map(node => node.textContent)
  .join("").trim()\<close>, as \<^verbatim>\<open>editSentence\<close> and \<^verbatim>\<open>markGood\<close> compute it.\<close>

definition childNodes_text :: "state \<Rightarrow> jsstring list" where
  "childNodes_text s = concat (map (\<lambda>n. [textContent n, [SP]]) (sentenceContainer s))"

definition current_text :: "state \<Rightarrow> jsstring" where
  "current_text s = trim (join (childNodes_text s))"

definition editSentence :: "state \<Rightarrow> state" where
  "editSentence s = s\<lparr>edit_box := Shown, sentence_edit := current_text s\<rparr>"

definition saveEdit :: "state \<Rightarrow> state" where
  "saveEdit s =
     (renderEditableSentence (trim (sentence_edit s)) s)\<lparr>edit_box := Hidden\<rparr>"

definition showFeedback :: "jsstring \<Rightarrow> state \<Rightarrow> state" where
  "showFeedback msg s = s\<lparr>feedback_message := msg, feedback_display := Shown\<rparr>"

definition clearFeedback :: "state \<Rightarrow> state" where
  "clearFeedback s = s\<lparr>feedback_message := [], feedback_display := Hidden\<rparr>"

definition useOriginal :: "state \<Rightarrow> state" where
  "useOriginal s =
     showFeedback (0xD83D # 0xDCDD # ascii '' Replaced with original sentence.'')
       (renderEditableSentence (trim (originalContainer s)) s)"

text \<open>
  How a \<^verbatim>\<open>fetch\<close> chain settles: the transport fails, the response is not
  \<^verbatim>\<open>ok\<close>, its body is not JSON, or the body is delivered.
\<close>

datatype 'a fetch_result = TransportError | NotOk | BadJson | Ok 'a

text \<open>The request of \<^verbatim>\<open>markGood\<close>: a \<^verbatim>\<open>PATCH\<close> of
  \<^verbatim>\<open>/sentence/<currentSentenceId>\<close> with the body
  \<^verbatim>\<open>{ final_sentence: finalText }\<close>.\<close>

record patch_request =
  url_id :: jsid
  body_final_sentence :: jsstring

text \<open>
  \<^verbatim>\<open>markGood\<close> up to the call of \<^verbatim>\<open>fetch\<close>: the text is read from the
  page, a falsy \<^verbatim>\<open>currentSentenceId\<close> ends the call with an alert, otherwise
  the request is issued.
\<close>

definition markGood :: "state \<Rightarrow> patch_request option \<times> state" where
  "markGood s =
     (let finalText = current_text s in
      case currentSentenceId s of
        None \<Rightarrow> (None, s\<lparr>alerts := alerts s @ [ascii ''No sentence loaded.'']\<rparr>)
      | Some i \<Rightarrow>
          if \<not> truthy_id (Some i)
          then (None, s\<lparr>alerts := alerts s @ [ascii ''No sentence loaded.'']\<rparr>)
          else (Some \<lparr>url_id = i, body_final_sentence = finalText\<rparr>, s))"

text \<open>The \<^verbatim>\<open>then\<close> and \<^verbatim>\<open>catch\<close> handlers of \<^verbatim>\<open>markGood\<close>, run when
  the request settles.\<close>

definition markGood_settled :: "unit fetch_result \<Rightarrow> state \<Rightarrow> state" where
  "markGood_settled res s =
     (case res of
        Ok _ \<Rightarrow>
          (showFeedback (0x2705 # ascii '' Sentence marked as good!'') s)
            \<lparr>markGood_disabled := False\<rparr>
      | _ \<Rightarrow> showFeedback (0x274C # ascii '' Failed to update sentence.'') s)"

text \<open>
  \<^verbatim>\<open>a || b\<close> on a field that may be absent: an absent field and the empty
  string are falsy. \<^verbatim>\<open>a || b || c\<close> is read as \<^verbatim>\<open>a || (b || c)\<close>, which
  has the same value.
\<close>

fun or_else :: "jsstring option \<Rightarrow> jsstring \<Rightarrow> jsstring" where
  "or_else None b = b"
| "or_else (Some a) b = (if a = [] then b else a)"

definition editable_of :: "sentence_record \<Rightarrow> jsstring" where
  "editable_of data =
     or_else (final_sentence data)
       (or_else (llm_sentence data) (original_sentence data))"

text \<open>The handlers of \<^verbatim>\<open>loadNextSentence\<close>, run when
  \<^verbatim>\<open>fetch("/next-sentence/1")\<close> settles.\<close>

definition loadNextSentence :: "sentence_record fetch_result \<Rightarrow> state \<Rightarrow> state" where
  "loadNextSentence res s =
     (case res of
        Ok data \<Rightarrow>
          (renderEditableSentence (editable_of data)
             (s\<lparr>currentSentenceId := Some (sentence_id data),
                stateDiv_sentenceId := Some (sentence_id data),
                originalContainer := original_sentence data\<rparr>))
            \<lparr>debug_info := Some (sentence_id data, note_id data, index data)\<rparr>
      | _ \<Rightarrow> s\<lparr>alerts := alerts s @ [ascii ''No more sentences to review.'']\<rparr>)"

section \<open>Runs of the page\<close>

text \<open>
  What can happen to the page: a fetch of \<^verbatim>\<open>loadNextSentence\<close> settles, a
  span is clicked, one of the buttons calls its function, the user types into
  \<^verbatim>\<open>#sentence-edit\<close>, or a request of \<^verbatim>\<open>markGood\<close> settles.
\<close>

datatype event =
    LoadSettled "sentence_record fetch_result"
  | Click nat
  | UndoRedact
  | EditSentence
  | Typed jsstring
  | SaveEdit
  | MarkGood
  | MarkGoodSettled "unit fetch_result"
  | UseOriginal
  | ClearFeedback

fun step :: "state \<Rightarrow> event \<Rightarrow> state" where
  "step s (LoadSettled res) = loadNextSentence res s"
| "step s (Click p) = click p s"
| "step s UndoRedact = undoRedact s"
| "step s EditSentence = editSentence s"
| "step s (Typed t) = s\<lparr>sentence_edit := t\<rparr>"
| "step s SaveEdit = saveEdit s"
| "step s MarkGood = snd (markGood s)"
| "step s (MarkGoodSettled res) = markGood_settled res s"
| "step s UseOriginal = useOriginal s"
| "step s ClearFeedback = clearFeedback s"

definition run :: "state \<Rightarrow> event list \<Rightarrow> state" where
  "run s evs = foldl step s evs"

text \<open>The page before the script has loaded a sentence. The markup of the
  page is not part of the script: both containers are taken to be empty, and
  the globals are as the script initialises them.\<close>

definition init :: state where
  "init = \<lparr>sentenceContainer = [], originalContainer = [],
     stateDiv_sentenceId = None, undoStack = [], currentSentenceId = None,
     edit_box = Hidden, sentence_edit = [], feedback_message = [],
     feedback_display = Hidden, markGood_disabled = False, debug_info = None,
     alerts = []\<rparr>"

inductive reachable :: "state \<Rightarrow> bool" where
  reachable_init: "reachable init"
| reachable_step: "reachable s \<Longrightarrow> reachable (step s e)"

text \<open>The operations of the specification, in terms of the script:
  \<^verbatim>\<open>commitEdit(newText)\<close> is \<^verbatim>\<open>saveEdit\<close> on the typed text,
  \<^verbatim>\<open>redact(p)\<close> a click on the span at position \<open>p\<close>, \<^verbatim>\<open>load(record)\<close>
  the delivery of the record to \<^verbatim>\<open>loadNextSentence\<close>.\<close>

definition commitEdit :: "jsstring \<Rightarrow> state \<Rightarrow> state" where
  "commitEdit newText s = saveEdit (s\<lparr>sentence_edit := newText\<rparr>)"

definition load :: "sentence_record \<Rightarrow> state \<Rightarrow> state" where
  "load data s = loadNextSentence (Ok data) s"

text \<open>A span is redacted when its handler is \<^verbatim>\<open>null\<close>; the texts shown by
  the spans, in order.\<close>

definition redacted :: "span_el \<Rightarrow> bool" where
  "redacted n = (onclick n = None)"

definition tokens :: "state \<Rightarrow> jsstring list" where
  "tokens s = map textContent (sentenceContainer s)"

section \<open>The invariant of the page\<close>

text \<open>
  In every state the script can reach, a span keeps its index; a span with a
  handler shows the word its handler would redact and has no entry on the
  stack; a span without a handler shows the marker and has an entry on the
  stack; and no span has two entries.
\<close>

definition wf_span :: "undo_entry list \<Rightarrow> nat \<Rightarrow> span_el \<Rightarrow> bool" where
  "wf_span st i n =
     (dataset_index n = i \<and>
      (case onclick n of
         Some w \<Rightarrow> textContent n = w \<and> i \<notin> span ` set st
       | None \<Rightarrow> textContent n = REDACT \<and> i \<in> span ` set st))"

definition inv :: "state \<Rightarrow> bool" where
  "inv s =
     (distinct (map span (undoStack s)) \<and>
      (\<forall>e\<in>set (undoStack s). span e < length (sentenceContainer s)) \<and>
      (\<forall>i\<in>{0..<length (sentenceContainer s)}.
         wf_span (undoStack s) i (sentenceContainer s ! i)))"

text \<open>The events that replace the text of \<^verbatim>\<open>#original-sentence\<close>.\<close>

fun is_load :: "event \<Rightarrow> bool" where
  "is_load (LoadSettled (Ok data)) = True"
| "is_load _ = False"


text \<open>The precedence of the initial text as the specification words it:
  \<^verbatim>\<open>final_sentence\<close> if present, else \<^verbatim>\<open>llm_sentence\<close> if present, else
  \<^verbatim>\<open>original_sentence\<close>.\<close>

definition spec_editable :: "sentence_record \<Rightarrow> jsstring" where
  "spec_editable data =
     (case final_sentence data of
        Some f \<Rightarrow> f
      | None \<Rightarrow>
          (case llm_sentence data of
             Some l \<Rightarrow> l
           | None \<Rightarrow> original_sentence data))"

text \<open>The record of the specification's end-to-end example, and the page
  after it is loaded.\<close>

definition cat_record :: sentence_record where
  "cat_record = \<lparr>sentence_id = IdNum 7, note_id = IdNum 3, index = 0,
     original_sentence = ascii ''The cat sat'', llm_sentence = None,
     final_sentence = None\<rparr>"

definition cat_page :: state where
  "cat_page = load cat_record init"

section \<open>Splitting and trimming\<close>

lemma split_not_Nil: "split t \<noteq> []"
  by (induction t) auto

lemma length_split: "length (split t) = Suc (count_list t SP)"
  by (induction t) (auto simp: split_not_Nil)

lemma split_no_space: "w \<in> set (split t) \<Longrightarrow> SP \<notin> set w"
proof (induction t arbitrary: w)
  case Nil
  then show ?case by simp
next
  case (Cons c cs)
  show ?case
  proof (cases "c = SP")
    case True
    with Cons show ?thesis by auto
  next
    case False
    have "split cs = hd (split cs) # tl (split cs)"
      using split_not_Nil[of cs] by simp
    then have "hd (split cs) \<in> set (split cs)" "set (tl (split cs)) \<subseteq> set (split cs)"
      by (metis list.set_intros(1), metis list.set_intros(2) subsetI)
    with Cons False show ?thesis by auto
  qed
qed

lemma unsplit_Cons: "ws \<noteq> [] \<Longrightarrow> unsplit (w # ws) = w @ SP # unsplit ws"
  by (cases ws) auto

lemma unsplit_Cons_hd:
  "ws \<noteq> [] \<Longrightarrow> unsplit ((c # hd ws) # tl ws) = c # unsplit ws"
  by (cases ws rule: unsplit.cases) auto

lemma unsplit_split: "unsplit (split t) = t"
  by (induction t) (auto simp: unsplit_Cons split_not_Nil unsplit_Cons_hd)

lemma split_word: "SP \<notin> set w \<Longrightarrow> split w = [w]"
  by (induction w) auto

lemma split_append_space: "split (u @ SP # v) = split u @ split v"
  by (induction u) (auto simp: split_not_Nil)

lemma split_spaces: "split (replicate k SP @ v) = replicate k [] @ split v"
  by (induction k) auto

lemma split_run:
  "0 < n \<Longrightarrow> split (u @ replicate n SP @ v) = split u @ replicate (n - 1) [] @ split v"
  by (cases n) (auto simp: split_append_space split_spaces)

lemma split_unsplit:
  "ws \<noteq> [] \<Longrightarrow> \<forall>w\<in>set ws. SP \<notin> set w \<Longrightarrow> split (unsplit ws) = ws"
proof (induction ws rule: unsplit.induct)
  case 1
  then show ?case by simp
next
  case (2 w)
  then show ?case by (simp add: split_word)
next
  case (3 w v ws)
  then show ?case by (simp add: split_append_space split_word)
qed

lemma concat_split: "concat (map (\<lambda>w. w @ [SP]) (split t)) = t @ [SP]"
proof (induction t)
  case Nil
  then show ?case by simp
next
  case (Cons c cs)
  have e: "split cs = hd (split cs) # tl (split cs)"
    using split_not_Nil[of cs] by simp
  show ?case
  proof (cases "c = SP")
    case True
    with Cons show ?thesis by simp
  next
    case False
    have "concat (map (\<lambda>w. w @ [SP]) (split (c # cs)))
        = c # concat (map (\<lambda>w. w @ [SP]) (hd (split cs) # tl (split cs)))"
      using False by simp
    also have "\<dots> = c # cs @ [SP]"
      using Cons e by simp
    finally show ?thesis by simp
  qed
qed

lemma appendWords_eq:
  "appendWords i ws c = c @ map (\<lambda>(j, w). new_span j w) (enumerate i ws)"
  by (induction ws arbitrary: i c) auto

lemma trim_ends:
  "trim t = [] \<or> (\<not> is_ws (hd (trim t)) \<and> \<not> is_ws (last (trim t)))"
proof (cases "trim t = []")
  case True
  then show ?thesis by simp
next
  case False
  let ?d = "dropWhile is_ws t"
  let ?r = "dropWhile is_ws (rev ?d)"
  have r: "?r \<noteq> []" using False by (simp add: trim_def)
  then have hr: "\<not> is_ws (hd ?r)" by (rule hd_dropWhile)
  have d: "?d \<noteq> []"
  proof
    assume "?d = []"
    then have "?r = []" by (simp del: dropWhile_eq_Nil_conv)
    with r show False by (simp del: dropWhile_eq_Nil_conv)
  qed
  then have hd: "\<not> is_ws (hd ?d)" by (rule hd_dropWhile)
  have l: "last (trim t) = hd ?r" using r by (simp add: trim_def last_rev)
  have "rev (rev ?d) = rev (takeWhile is_ws (rev ?d) @ ?r)"
    by (simp only: takeWhile_dropWhile_id)
  then have "?d = rev ?r @ rev (takeWhile is_ws (rev ?d))"
    by (simp only: rev_rev_ident rev_append)
  then have "hd ?d = hd (rev ?r @ rev (takeWhile is_ws (rev ?d)))"
    by (rule arg_cong)
  also have "\<dots> = hd (rev ?r)"
    using r by (simp only: hd_append2 rev_is_Nil_conv not_False_eq_True)
  finally have "hd ?d = hd (trim t)" by (simp only: trim_def)
  with hd hr l show ?thesis by simp
qed

lemma trim_snoc_space: "trim (trim t @ [SP]) = trim t"
proof (cases "trim t = []")
  case True
  have "trim [SP] = []" by (simp add: trim_def is_ws_def SP_def)
  then show ?thesis by (simp only: True append_Nil)
next
  case False
  with trim_ends[of t] have h: "\<not> is_ws (hd (trim t))" and l: "\<not> is_ws (last (trim t))"
    by auto
  have sp: "is_ws SP" by (simp add: is_ws_def SP_def)
  from False h have "dropWhile is_ws (trim t @ [SP]) = trim t @ [SP]"
    by (cases "trim t") auto
  moreover have "dropWhile is_ws (rev (trim t @ [SP])) = rev (trim t)"
    using False l sp by (cases "rev (trim t)") (auto simp: hd_rev)
  ultimately show ?thesis by (simp add: trim_def[of "trim t @ [SP]"])
qed


section \<open>Rendering\<close>

lemma tokens_appendWords:
  "map textContent (appendWords i ws c) = map textContent c @ ws"
  by (induction ws arbitrary: i c) (auto simp: new_span_def)

lemma tokens_render: "tokens (renderEditableSentence t s) = split t"
  by (simp add: tokens_def renderEditableSentence_def tokens_appendWords)

lemma concat_nodes:
  "concat (concat (map (\<lambda>n. [f n, [SP]]) xs)) = concat (map (\<lambda>n. f n @ [SP]) xs)"
  by (induction xs) simp_all

lemma join_childNodes:
  "join (childNodes_text s) = concat (map (\<lambda>w. w @ [SP]) (tokens s))"
  by (simp add: join_def childNodes_text_def tokens_def concat_nodes comp_def)

lemma current_text_render:
  "current_text (renderEditableSentence t s) = trim (t @ [SP])"
  by (simp add: current_text_def join_childNodes tokens_render concat_split)

section \<open>Preservation of the invariant\<close>

lemma inv_iff:
  "inv s \<longleftrightarrow>
     distinct (map span (undoStack s)) \<and>
     (\<forall>e\<in>set (undoStack s). span e < length (sentenceContainer s)) \<and>
     (\<forall>i<length (sentenceContainer s).
        wf_span (undoStack s) i (sentenceContainer s ! i))"
  by (simp add: inv_def Ball_def)

lemma length_appendWords [simp]: "length (appendWords i ws c) = length c + length ws"
  by (simp add: appendWords_eq)

lemma nth_appendWords:
  "k < length ws \<Longrightarrow> appendWords i ws [] ! k = new_span (i + k) (ws ! k)"
  by (simp add: appendWords_eq nth_enumerate_eq)

lemma inv_render: "inv (renderEditableSentence t s)"
  by (simp add: inv_iff renderEditableSentence_def wf_span_def nth_appendWords new_span_def)

lemma inv_redactWord:
  assumes "inv s" "p < length (sentenceContainer s)"
    and "onclick (sentenceContainer s ! p) = Some w"
  shows "inv (redactWord p w s)"
proof -
  from assms have notin: "p \<notin> span ` set (undoStack s)"
    by (auto simp: inv_iff wf_span_def)
  have "wf_span (undoStack s @ [\<lparr>span = p, original = w\<rparr>]) i
          ((sentenceContainer s)[p := (sentenceContainer s ! p)
             \<lparr>textContent := REDACT, onclick := None\<rparr>] ! i)"
    if "i < length (sentenceContainer s)" for i
  proof (cases "i = p")
    case True
    with assms show ?thesis by (simp add: inv_iff wf_span_def)
  next
    case False
    from assms(1) that have "wf_span (undoStack s) i (sentenceContainer s ! i)"
      by (simp add: inv_iff)
    with False show ?thesis
      by (auto simp: wf_span_def split: option.splits)
  qed
  with assms notin show ?thesis
    by (simp add: inv_iff redactWord_def)
qed

lemma inv_click: "inv s \<Longrightarrow> inv (click p s)"
  by (simp add: click_def inv_redactWord split: option.splits)

lemma inv_undoRedact:
  assumes "inv s"
  shows "inv (undoRedact s)"
proof (cases "undoStack s" rule: rev_cases)
  case Nil
  with assms show ?thesis by (simp add: undoRedact_def)
next
  case (snoc st e)
  let ?c = "sentenceContainer s"
  from assms snoc have d: "distinct (map span st)" and ne: "span e \<notin> span ` set st"
    and rng: "\<forall>x\<in>set st. span x < length ?c" and erng: "span e < length ?c"
    by (auto simp: inv_iff)
  have "wf_span st i
          (?c[span e := (?c ! span e)\<lparr>textContent := original e,
             onclick := Some (original e)\<rparr>] ! i)"
    if "i < length ?c" for i
  proof (cases "i = span e")
    case True
    from assms that have "dataset_index (?c ! i) = i" by (simp add: inv_iff wf_span_def)
    with True that ne show ?thesis by (simp add: wf_span_def)
  next
    case False
    from assms that snoc have "wf_span (st @ [e]) i (?c ! i)"
      by (simp add: inv_iff)
    with False show ?thesis
      by (auto simp: wf_span_def split: option.splits)
  qed
  with d rng snoc show ?thesis
    by (simp add: inv_iff undoRedact_def)
qed

lemma inv_frame:
  "sentenceContainer t = sentenceContainer s \<Longrightarrow> undoStack t = undoStack s \<Longrightarrow>
   inv t = inv s"
  by (simp add: inv_iff)

lemma inv_step:
  assumes "inv s"
  shows "inv (step s e)"
proof (cases e)
  case (LoadSettled res)
  show ?thesis
  proof (cases res)
    case (Ok data)
    let ?s1 = "s\<lparr>currentSentenceId := Some (sentence_id data),
                stateDiv_sentenceId := Some (sentence_id data),
                originalContainer := original_sentence data\<rparr>"
    have "inv (loadNextSentence (Ok data) s)
        = inv (renderEditableSentence (editable_of data) ?s1)"
      by (rule inv_frame) (simp_all add: loadNextSentence_def)
    with LoadSettled Ok show ?thesis by (simp add: inv_render)
  qed (use assms LoadSettled in \<open>simp_all add: loadNextSentence_def inv_iff\<close>)
next
  case (Click p)
  with assms show ?thesis by (simp add: inv_click)
next
  case UndoRedact
  with assms show ?thesis by (simp add: inv_undoRedact)
next
  case EditSentence
  with assms show ?thesis by (simp add: editSentence_def inv_iff)
next
  case (Typed t)
  with assms show ?thesis by (simp add: inv_iff)
next
  case SaveEdit
  have "inv (saveEdit s) = inv (renderEditableSentence (trim (sentence_edit s)) s)"
    by (rule inv_frame) (simp_all add: saveEdit_def)
  with SaveEdit show ?thesis by (simp add: inv_render)
next
  case MarkGood
  with assms show ?thesis
    by (simp add: markGood_def inv_iff Let_def split: option.splits)
next
  case (MarkGoodSettled res)
  with assms show ?thesis
    by (cases res) (simp_all add: markGood_settled_def showFeedback_def inv_iff)
next
  case UseOriginal
  have "inv (useOriginal s) = inv (renderEditableSentence (trim (originalContainer s)) s)"
    by (rule inv_frame) (simp_all add: useOriginal_def showFeedback_def)
  with UseOriginal show ?thesis by (simp add: inv_render)
next
  case ClearFeedback
  with assms show ?thesis by (simp add: clearFeedback_def inv_iff)
qed

lemma inv_init: "inv init"
  by (simp add: inv_iff init_def)

lemma reachable_inv: "reachable s \<Longrightarrow> inv s"
  by (induction rule: reachable.induct) (simp_all add: inv_init inv_step)


section \<open>Loading a record\<close>

lemma tokens_load: "tokens (load data s) = split (editable_of data)"
  by (simp add: load_def loadNextSentence_def tokens_def renderEditableSentence_def
      tokens_appendWords)

text \<open>
  Claim C2, as stated: \<^verbatim>\<open>load(record)\<close> takes \<^verbatim>\<open>final_sentence\<close> if present,
  else \<^verbatim>\<open>llm_sentence\<close> if present, else \<^verbatim>\<open>original_sentence\<close>. The script
  chooses with \<^verbatim>\<open>||\<close>, for which a present but empty string counts as absent:
  for a record whose \<^verbatim>\<open>final_sentence\<close> is the empty string and whose
  \<^verbatim>\<open>llm_sentence\<close> is \<^verbatim>\<open>"b"\<close>, the tokens are those of \<^verbatim>\<open>"b"\<close>, not those of
  the empty \<^verbatim>\<open>final_sentence\<close>.
\<close>

theorem load_precedence_counterexample:
  "tokens (load \<lparr>sentence_id = IdNum 1, note_id = IdNum 1, index = 0,
            original_sentence = ascii ''a'', llm_sentence = Some (ascii ''b''),
            final_sentence = Some []\<rparr> init)
     \<noteq> split (spec_editable \<lparr>sentence_id = IdNum 1, note_id = IdNum 1, index = 0,
            original_sentence = ascii ''a'', llm_sentence = Some (ascii ''b''),
            final_sentence = Some []\<rparr>)"
  by (simp add: tokens_load editable_of_def spec_editable_def ascii_def SP_def)

text \<open>
  Claim C2, amended: \<^verbatim>\<open>load(record)\<close> renders \<^verbatim>\<open>final_sentence\<close> if it is
  present and not empty, else \<^verbatim>\<open>llm_sentence\<close> if it is present and not empty,
  else \<^verbatim>\<open>original_sentence\<close>. In particular a present, non-empty
  \<^verbatim>\<open>final_sentence\<close> is used whatever \<^verbatim>\<open>llm_sentence\<close> is, and the choice is
  the one of the specification whenever no present field is empty.
\<close>

theorem load_precedence:
  "tokens (load data s) =
     split (if final_sentence data \<noteq> None \<and> final_sentence data \<noteq> Some []
            then the (final_sentence data)
            else if llm_sentence data \<noteq> None \<and> llm_sentence data \<noteq> Some []
            then the (llm_sentence data)
            else original_sentence data) \<and>
   (final_sentence data = Some f \<and> f \<noteq> [] \<longrightarrow> tokens (load data s) = split f) \<and>
   (final_sentence data \<noteq> Some [] \<and> llm_sentence data \<noteq> Some []
      \<longrightarrow> tokens (load data s) = split (spec_editable data))"
proof -
  have "tokens (load data s) = split (editable_of data)"
    by (rule tokens_load)
  then show ?thesis
    by (cases "final_sentence data"; cases "llm_sentence data")
       (auto simp: editable_of_def spec_editable_def)
qed

theorem load_precedence_witness:
  "tokens (load \<lparr>sentence_id = IdNum 1, note_id = IdNum 1, index = 0,
            original_sentence = ascii ''a'', llm_sentence = Some (ascii ''b''),
            final_sentence = Some (ascii ''c d'')\<rparr> init) = [ascii ''c'', ascii ''d'']"
  using load_precedence[of "\<lparr>sentence_id = IdNum 1, note_id = IdNum 1, index = 0,
            original_sentence = ascii ''a'', llm_sentence = Some (ascii ''b''),
            final_sentence = Some (ascii ''c d'')\<rparr>" init "ascii ''c d''"]
  by (simp add: ascii_def SP_def)


section \<open>Tokens of a rendering\<close>

text \<open>
  Claim C6: \<^verbatim>\<open>renderEditable(text)\<close> produces the tokens obtained by cutting
  \<open>text\<close> at every single space, keeping empty segments. The tokens are the one
  non-empty sequence of space-free words that gives \<open>text\<close> back when joined with
  single spaces; their number is the number of spaces of \<open>text\<close> plus one; and a
  run of \<open>n\<close> spaces between \<open>u\<close> and \<open>v\<close> leaves \<open>n - 1\<close> empty tokens between
  the last word of \<open>u\<close> and the first word of \<open>v\<close>.
\<close>

theorem renderEditable_tokens:
  "tokens (renderEditableSentence text s) = split text \<and>
   unsplit (split text) = text \<and>
   (\<forall>w\<in>set (split text). SP \<notin> set w) \<and>
   (\<forall>ws. ws \<noteq> [] \<and> (\<forall>w\<in>set ws. SP \<notin> set w) \<and> unsplit ws = text
      \<longrightarrow> ws = split text) \<and>
   length (tokens (renderEditableSentence text s)) = count_list text SP + 1 \<and>
   (0 < n \<longrightarrow>
      tokens (renderEditableSentence (u @ replicate n SP @ v) s)
        = split u @ replicate (n - 1) [] @ split v)"
proof -
  have "ws = split text"
    if "ws \<noteq> []" "\<forall>w\<in>set ws. SP \<notin> set w" "unsplit ws = text" for ws
    using split_unsplit[OF that(1,2)] that(3) by simp
  then show ?thesis
    by (simp add: tokens_render unsplit_split split_no_space length_split split_run)
qed

theorem renderEditable_tokens_witness:
  "0 < (2::nat) \<and>
   tokens (renderEditableSentence (ascii ''a'' @ replicate 2 SP @ ascii ''b'') init)
     = [ascii ''a'', [], ascii ''b''] \<and>
   length (tokens (renderEditableSentence (ascii ''a  b'') init)) = 3 \<and>
   SP \<notin> set (ascii ''a'') \<and> SP \<notin> set (ascii ''b'') \<and>
   unsplit [ascii ''a'', [], ascii ''b''] = ascii ''a  b''"
proof -
  have e: "ascii ''a  b'' = ascii ''a'' @ replicate 2 SP @ ascii ''b''"
    by (simp add: ascii_def SP_def numeral_2_eq_2)
  have c: "count_list (ascii ''a  b'') SP = 2"
    by (simp add: ascii_def SP_def)
  have s: "split (ascii ''a'') = [ascii ''a'']" "split (ascii ''b'') = [ascii ''b'']"
    by (simp_all add: ascii_def SP_def)
  from renderEditable_tokens[of "ascii ''a  b''" init 2 "ascii ''a''" "ascii ''b''"]
  show ?thesis
    unfolding e[symmetric] by (simp add: c s numeral_2_eq_2) (simp add: ascii_def SP_def)
qed

section \<open>Committing an edit\<close>

text \<open>
  Claim C5: after \<^verbatim>\<open>commitEdit(text)\<close>, with nothing redacted in between, the
  text read back from the page (the texts of all child nodes of the container,
  spans and separators, concatenated and trimmed, as \<^verbatim>\<open>editSentence\<close> and
  \<^verbatim>\<open>markGood\<close> read it) is exactly \<^verbatim>\<open>text.trim()\<close>.
\<close>

theorem commitEdit_roundtrip:
  "current_text (commitEdit text s) = trim text \<and>
   sentence_edit (editSentence (commitEdit text s)) = trim text"
proof -
  have "current_text (commitEdit text s)
      = current_text (renderEditableSentence (trim text) (s\<lparr>sentence_edit := text\<rparr>))"
    by (simp add: commitEdit_def saveEdit_def current_text_def childNodes_text_def)
  also have "\<dots> = trim text"
    by (simp only: current_text_render trim_snoc_space)
  finally show ?thesis by (simp add: editSentence_def)
qed

text \<open>
  Claim C7: \<^verbatim>\<open>commitEdit\<close> always clears the undo history. After any run of
  events, redactions and undos among them, the stack is empty after
  \<^verbatim>\<open>commitEdit(newText)\<close>, and an \<^verbatim>\<open>undo()\<close> that follows changes nothing at
  all.
\<close>

theorem commitEdit_clears_history:
  "undoStack (commitEdit newText (run s evs)) = [] \<and>
   undoRedact (commitEdit newText (run s evs)) = commitEdit newText (run s evs)"
  by (simp add: commitEdit_def saveEdit_def renderEditableSentence_def undoRedact_def)

section \<open>Redacting and undoing\<close>

lemma click_redactWord:
  "p < length (sentenceContainer s) \<Longrightarrow> onclick (sentenceContainer s ! p) = Some w \<Longrightarrow>
   click p s = redactWord p w s"
  by (simp add: click_def)


lemma handler_shows_word:
  "inv s \<Longrightarrow> p < length (sentenceContainer s) \<Longrightarrow>
   onclick (sentenceContainer s ! p) = Some w \<Longrightarrow> textContent (sentenceContainer s ! p) = w"
  by (auto simp: inv_iff wf_span_def)

lemma undo_redactWord:
  assumes "inv s" "p < length (sentenceContainer s)"
    and "onclick (sentenceContainer s ! p) = Some w"
  shows "undoRedact (redactWord p w s) = s"
proof -
  let ?c = "sentenceContainer s"
  have t: "textContent (?c ! p) = w"
    using assms by (rule handler_shows_word)
  have "(?c ! p)\<lparr>textContent := w, onclick := Some w\<rparr> = ?c ! p"
    using t assms(3) by simp
  then have "?c[p := (?c ! p)\<lparr>textContent := w, onclick := Some w\<rparr>] = ?c"
    by simp
  with assms(2) show ?thesis
    by (simp add: undoRedact_def redactWord_def)
qed

lemma undo_click:
  assumes "inv s" "p < length (sentenceContainer s)"
    and "\<not> redacted (sentenceContainer s ! p)"
  shows "undoRedact (click p s) = s"
proof -
  from assms(3) obtain w where w: "onclick (sentenceContainer s ! p) = Some w"
    by (auto simp: redacted_def)
  with assms show ?thesis
    by (simp add: click_redactWord undo_redactWord)
qed

lemma length_click [simp]:
  "length (sentenceContainer (click p s)) = length (sentenceContainer s)"
  by (simp add: click_def redactWord_def split: option.splits)

lemma nth_click_other:
  "i \<noteq> p \<Longrightarrow> sentenceContainer (click p s) ! i = sentenceContainer s ! i"
  by (simp add: click_def redactWord_def split: option.splits)


lemma tokens_click:
  assumes "inv s" "p < length (sentenceContainer s)"
  shows "tokens (click p s) = (tokens s)[p := REDACT]"
proof (cases "onclick (sentenceContainer s ! p)")
  case None
  with assms have "textContent (sentenceContainer s ! p) = REDACT"
    by (auto simp: inv_iff wf_span_def)
  then have "(tokens s)[p := REDACT] = tokens s"
    using assms(2) by (simp add: tokens_def list_update_same_conv)
  with None assms(2) show ?thesis by (simp add: click_def)
next
  case (Some w)
  with assms(2) show ?thesis
    by (simp add: click_def redactWord_def tokens_def map_update)
qed

text \<open>The page of the end-to-end example is a state the script reaches.\<close>

lemma reachable_cat_page: "reachable cat_page"
proof -
  have "cat_page = step init (LoadSettled (Ok cat_record))"
    by (simp add: cat_page_def load_def)
  then show ?thesis
    using reachable_step[OF reachable_init, of "LoadSettled (Ok cat_record)"] by simp
qed

lemma cat_page_container:
  "sentenceContainer cat_page =
     [new_span 0 (ascii ''The''), new_span 1 (ascii ''cat''), new_span 2 (ascii ''sat'')]"
proof -
  have "sentenceContainer cat_page =
     [new_span 0 (ascii ''The''), new_span (Suc 0) (ascii ''cat''),
      new_span (Suc (Suc 0)) (ascii ''sat'')]"
    by (simp add: cat_page_def cat_record_def load_def loadNextSentence_def
        renderEditableSentence_def editable_of_def ascii_def SP_def)
  then show ?thesis by (simp only: numeral_2_eq_2 One_nat_def)
qed

lemma cat_page_stack: "undoStack cat_page = []"
  by (simp add: cat_page_def load_def loadNextSentence_def renderEditableSentence_def)

text \<open>
  Claim C4: redact-then-undo is an identity on a token's displayed text. For a
  position \<open>p\<close> that holds an unredacted token, \<^verbatim>\<open>redact(p)\<close> shows the marker
  and the \<^verbatim>\<open>undo()\<close> that follows restores exactly the text shown before; the
  whole state is as it was.
\<close>

theorem redact_undo_identity:
  assumes "reachable s" "p < length (sentenceContainer s)"
    and "\<not> redacted (sentenceContainer s ! p)"
  shows "textContent (sentenceContainer (undoRedact (click p s)) ! p)
           = textContent (sentenceContainer s ! p) \<and>
         textContent (sentenceContainer (click p s) ! p) = REDACT \<and>
         undoRedact (click p s) = s"
proof -
  have i: "inv s" using assms(1) by (rule reachable_inv)
  have "undoRedact (click p s) = s"
    using i assms(2,3) by (rule undo_click)
  moreover have "textContent (sentenceContainer (click p s) ! p) = REDACT"
    using tokens_click[OF i assms(2)] assms(2) by (simp add: tokens_def nth_map[symmetric] del: nth_map)
  ultimately show ?thesis by simp
qed

theorem redact_undo_identity_witness:
  "textContent (sentenceContainer (undoRedact (click 1 cat_page)) ! 1) = ascii ''cat'' \<and>
   textContent (sentenceContainer (click 1 cat_page) ! 1) = REDACT \<and>
   undoRedact (click 1 cat_page) = cat_page"
  using redact_undo_identity[OF reachable_cat_page, of 1]
  by (simp add: cat_page_container redacted_def new_span_def)

text \<open>
  Claim C3: undo is last-in-first-out. For distinct positions \<open>a\<close>, \<open>b\<close>, \<open>c\<close>
  with unredacted tokens, in any numeric order, after redacting \<open>a\<close>, \<open>b\<close>, \<open>c\<close>
  the first undo restores the text at \<open>c\<close> alone, the second the text at \<open>b\<close>,
  the third the text at \<open>a\<close>.
\<close>

theorem undo_lifo:
  assumes "reachable s"
    and "a < length (sentenceContainer s)" "b < length (sentenceContainer s)"
      "c < length (sentenceContainer s)"
    and "a \<noteq> b" "a \<noteq> c" "b \<noteq> c"
    and "\<not> redacted (sentenceContainer s ! a)" "\<not> redacted (sentenceContainer s ! b)"
      "\<not> redacted (sentenceContainer s ! c)"
  shows "tokens (click c (click b (click a s)))
           = (tokens s)[a := REDACT, b := REDACT, c := REDACT] \<and>
         tokens (undoRedact (click c (click b (click a s))))
           = (tokens s)[a := REDACT, b := REDACT] \<and>
         tokens (undoRedact (undoRedact (click c (click b (click a s)))))
           = (tokens s)[a := REDACT] \<and>
         tokens (undoRedact (undoRedact (undoRedact (click c (click b (click a s))))))
           = tokens s"
proof -
  let ?s1 = "click a s"
  let ?s2 = "click b ?s1"
  have i0: "inv s" using assms(1) by (rule reachable_inv)
  have i1: "inv ?s1" using i0 by (rule inv_click)
  have i2: "inv ?s2" using i1 by (rule inv_click)
  have b1: "\<not> redacted (sentenceContainer ?s1 ! b)"
    using assms(5,9) by (simp add: nth_click_other)
  have c2: "\<not> redacted (sentenceContainer ?s2 ! c)"
    using assms(6,7,10) by (simp add: nth_click_other)
  have u3: "undoRedact (click c ?s2) = ?s2"
    using i2 c2 assms(4) by (simp add: undo_click)
  have u2: "undoRedact ?s2 = ?s1"
    using i1 b1 assms(3) by (simp add: undo_click)
  have u1: "undoRedact ?s1 = s"
    using i0 assms(2,8) by (simp add: undo_click)
  have t1: "tokens ?s1 = (tokens s)[a := REDACT]"
    using i0 assms(2) by (rule tokens_click)
  have t2: "tokens ?s2 = (tokens s)[a := REDACT, b := REDACT]"
    using tokens_click[OF i1, of b] assms(3) t1 by simp
  have t3: "tokens (click c ?s2) = (tokens s)[a := REDACT, b := REDACT, c := REDACT]"
    using tokens_click[OF i2, of c] assms(4) t2 by simp
  show ?thesis
    by (simp only: u3 u2 u1 t1 t2 t3)
qed

theorem undo_lifo_witness:
  "tokens (click 1 (click 0 (click 2 cat_page))) = [REDACT, REDACT, REDACT] \<and>
   tokens (undoRedact (click 1 (click 0 (click 2 cat_page))))
     = [REDACT, ascii ''cat'', REDACT] \<and>
   tokens (undoRedact (undoRedact (click 1 (click 0 (click 2 cat_page)))))
     = [ascii ''The'', ascii ''cat'', REDACT] \<and>
   tokens (undoRedact (undoRedact (undoRedact (click 1 (click 0 (click 2 cat_page))))))
     = [ascii ''The'', ascii ''cat'', ascii ''sat'']"
  using undo_lifo[OF reachable_cat_page, of 2 0 1]
  by (simp add: cat_page_container redacted_def new_span_def tokens_def)

section \<open>The undo history\<close>









text \<open>\<^verbatim>\<open>redactWord\<close> itself does not look at the span it is given: the guard
  against a second redaction is the handler it removes.\<close>

lemma redactWord_twice:
  "undoStack (redactWord p w (redactWord p w s))
     = undoStack s @ [\<lparr>span = p, original = w\<rparr>, \<lparr>span = p, original = w\<rparr>]"
  by (simp add: redactWord_def)




section \<open>What redact and undo leave alone\<close>

lemma cat_page_id:
  "currentSentenceId cat_page = Some (IdNum 7) \<and>
   originalContainer cat_page = ascii ''The cat sat''"
  by (simp add: cat_page_def cat_record_def load_def loadNextSentence_def
      renderEditableSentence_def)

lemma click_keeps_id: "currentSentenceId (click p s) = currentSentenceId s"
  by (simp add: click_def redactWord_def split: option.splits)

text \<open>
  Claim C10: \<^verbatim>\<open>redact(p)\<close> and \<^verbatim>\<open>undo()\<close> change nothing but the history
  and the container; the active sentence id and the original-sentence display
  stay, the container keeps its length and the indices of its spans, and every
  span but the affected one (the span at \<open>p\<close>, the span of the popped event) is
  untouched.
\<close>

theorem redact_undo_frame:
  "click p s = s\<lparr>undoStack := undoStack (click p s),
                 sentenceContainer := sentenceContainer (click p s)\<rparr> \<and>
   currentSentenceId (click p s) = currentSentenceId s \<and>
   originalContainer (click p s) = originalContainer s \<and>
   length (sentenceContainer (click p s)) = length (sentenceContainer s) \<and>
   map dataset_index (sentenceContainer (click p s))
     = map dataset_index (sentenceContainer s) \<and>
   (\<forall>i. i \<noteq> p \<longrightarrow> sentenceContainer (click p s) ! i = sentenceContainer s ! i) \<and>
   undoRedact s = s\<lparr>undoStack := undoStack (undoRedact s),
                    sentenceContainer := sentenceContainer (undoRedact s)\<rparr> \<and>
   currentSentenceId (undoRedact s) = currentSentenceId s \<and>
   originalContainer (undoRedact s) = originalContainer s \<and>
   length (sentenceContainer (undoRedact s)) = length (sentenceContainer s) \<and>
   map dataset_index (sentenceContainer (undoRedact s))
     = map dataset_index (sentenceContainer s) \<and>
   (\<forall>i. i \<noteq> span (last (undoStack s))
      \<longrightarrow> sentenceContainer (undoRedact s) ! i = sentenceContainer s ! i)"
proof -
  have upd: "map dataset_index (c[k := (c ! k)\<lparr>textContent := t, onclick := h\<rparr>])
      = map dataset_index c" for c :: "span_el list" and k t h
    by (cases "k < length c") (simp_all add: map_update list_update_same_conv list_update_beyond)
  have c1: "click p s = s\<lparr>undoStack := undoStack (click p s),
                 sentenceContainer := sentenceContainer (click p s)\<rparr>"
    by (simp add: click_def redactWord_def split: option.splits)
  have c2: "map dataset_index (sentenceContainer (click p s))
     = map dataset_index (sentenceContainer s)"
    by (simp add: click_def redactWord_def upd split: option.splits)
  have u1: "undoRedact s = s\<lparr>undoStack := undoStack (undoRedact s),
                    sentenceContainer := sentenceContainer (undoRedact s)\<rparr>"
    by (simp add: undoRedact_def Let_def)
  have u2: "map dataset_index (sentenceContainer (undoRedact s))
     = map dataset_index (sentenceContainer s)"
    by (simp add: undoRedact_def Let_def upd)
  have u3: "sentenceContainer (undoRedact s) ! i = sentenceContainer s ! i"
    if "i \<noteq> span (last (undoStack s))" for i
    using that by (simp add: undoRedact_def Let_def)
  have c3: "currentSentenceId (click p s) = currentSentenceId s \<and>
   originalContainer (click p s) = originalContainer s"
    by (simp add: click_def redactWord_def split: option.splits)
  have u4: "currentSentenceId (undoRedact s) = currentSentenceId s \<and>
   originalContainer (undoRedact s) = originalContainer s \<and>
   length (sentenceContainer (undoRedact s)) = length (sentenceContainer s)"
    by (simp add: undoRedact_def Let_def)
  show ?thesis
    using c1 c2 c3 u1 u2 u3 u4 by (simp add: nth_click_other)
qed

theorem redact_undo_frame_witness:
  "sentenceContainer (click 1 cat_page) ! 0 = sentenceContainer cat_page ! 0 \<and>
   sentenceContainer (undoRedact (click 1 cat_page)) ! 2 = sentenceContainer cat_page ! 2 \<and>
   currentSentenceId (undoRedact (click 1 cat_page)) = Some (IdNum 7) \<and>
   originalContainer (undoRedact (click 1 cat_page)) = ascii ''The cat sat'' \<and>
   map dataset_index (sentenceContainer (click 1 cat_page)) = [0, 1, 2]"
proof -
  have st: "undoStack (click 1 cat_page) = [\<lparr>span = 1, original = ascii ''cat''\<rparr>]"
    by (simp add: click_def redactWord_def cat_page_container cat_page_stack new_span_def)
  show ?thesis
    using cat_page_id redact_undo_frame[of 1 cat_page] redact_undo_frame[of 0 "click 1 cat_page"]
    unfolding st by (simp add: cat_page_container new_span_def)
qed

section \<open>Submitting\<close>

lemma markGood_settled_failure:
  "res \<noteq> Ok () \<Longrightarrow>
   markGood_settled res s = showFeedback (0x274C # ascii '' Failed to update sentence.'') s"
  by (cases res) (simp_all add: markGood_settled_def)

lemma markGood_request:
  "truthy_id (currentSentenceId s) \<Longrightarrow>
   markGood s = (Some \<lparr>url_id = the (currentSentenceId s),
                       body_final_sentence = current_text s\<rparr>, s)"
  by (cases "currentSentenceId s") (simp_all add: markGood_def)

lemma current_text_showFeedback: "current_text (showFeedback m s) = current_text s"
  by (simp add: current_text_def childNodes_text_def showFeedback_def)

text \<open>
  Claim C8: when the request of \<^verbatim>\<open>submitFinal()\<close> fails (transport error, a
  response that is not ok, a body that is not JSON), the failure message is
  shown and nothing else changes: tokens, undo history and active id are as
  before, and a second \<^verbatim>\<open>submitFinal()\<close> issues the same request, the same
  text for the same id.
\<close>

theorem submit_failure_keeps_state:
  assumes "res \<noteq> Ok ()" and "truthy_id (currentSentenceId s)"
  shows "markGood s = (Some \<lparr>url_id = the (currentSentenceId s),
                              body_final_sentence = current_text s\<rparr>, s) \<and>
         feedback_message (markGood_settled res s)
           = 0x274C # ascii '' Failed to update sentence.'' \<and>
         feedback_display (markGood_settled res s) = Shown \<and>
         sentenceContainer (markGood_settled res s) = sentenceContainer s \<and>
         undoStack (markGood_settled res s) = undoStack s \<and>
         currentSentenceId (markGood_settled res s) = currentSentenceId s \<and>
         markGood_settled res s
           = s\<lparr>feedback_message := feedback_message (markGood_settled res s),
               feedback_display := Shown\<rparr> \<and>
         fst (markGood (markGood_settled res s)) = fst (markGood s)"
proof -
  let ?s' = "showFeedback (0x274C # ascii '' Failed to update sentence.'') s"
  have e: "markGood_settled res s = ?s'"
    using assms(1) by (rule markGood_settled_failure)
  have t: "truthy_id (currentSentenceId ?s')"
    using assms(2) by (simp add: showFeedback_def)
  have "fst (markGood ?s') = fst (markGood s)"
    by (simp add: markGood_request[OF t] markGood_request[OF assms(2)]
        current_text_showFeedback) (simp add: showFeedback_def)
  then show ?thesis
    using markGood_request[OF assms(2)] by (simp add: e) (simp add: showFeedback_def)
qed

theorem submit_failure_keeps_state_witness:
  "markGood (click 1 cat_page)
     = (Some \<lparr>url_id = IdNum 7, body_final_sentence = ascii ''The [REDACT] sat''\<rparr>,
        click 1 cat_page) \<and>
   fst (markGood (markGood_settled NotOk (click 1 cat_page)))
     = Some \<lparr>url_id = IdNum 7, body_final_sentence = ascii ''The [REDACT] sat''\<rparr> \<and>
   tokens (markGood_settled NotOk (click 1 cat_page)) = [ascii ''The'', REDACT, ascii ''sat''] \<and>
   feedback_display (markGood_settled NotOk (click 1 cat_page)) = Shown"
proof -
  have c: "sentenceContainer (click 1 cat_page) =
     [new_span 0 (ascii ''The''), \<lparr>textContent = REDACT, dataset_index = 1, onclick = None\<rparr>,
      new_span 2 (ascii ''sat'')]"
    by (simp add: click_def redactWord_def cat_page_container new_span_def)
  have i: "currentSentenceId (click 1 cat_page) = Some (IdNum 7)"
    by (simp add: click_keeps_id cat_page_id)
  have t: "current_text (click 1 cat_page) = ascii ''The [REDACT] sat''"
    unfolding current_text_def childNodes_text_def c
    by (simp add: join_def new_span_def REDACT_def ascii_def SP_def trim_def is_ws_def)
  have n: "NotOk \<noteq> Ok ()" by simp
  have y: "truthy_id (currentSentenceId (click 1 cat_page))" unfolding i by simp
  show ?thesis
    using submit_failure_keeps_state[OF n y]
    unfolding i t tokens_def c by (simp add: new_span_def)
qed

section \<open>Reverting to the original\<close>

lemma original_step:
  "\<not> is_load e \<Longrightarrow> originalContainer (step s e) = originalContainer s"
proof (cases e)
  case (LoadSettled res)
  assume "\<not> is_load e"
  with LoadSettled show ?thesis
    by (cases res) (simp_all add: loadNextSentence_def)
next
  case (Click p)
  then show ?thesis by (simp add: click_def redactWord_def split: option.splits)
next
  case UndoRedact
  then show ?thesis by (simp add: undoRedact_def Let_def)
next
  case MarkGood
  then show ?thesis by (simp add: markGood_def Let_def split: option.splits)
next
  case (MarkGoodSettled res)
  then show ?thesis
    by (cases res) (simp_all add: markGood_settled_def showFeedback_def)
qed (simp_all add: editSentence_def saveEdit_def useOriginal_def showFeedback_def
      clearFeedback_def renderEditableSentence_def)

lemma original_run:
  "\<forall>e\<in>set evs. \<not> is_load e \<Longrightarrow>
   originalContainer (run s evs) = originalContainer s"
  unfolding run_def
  by (induction evs arbitrary: s) (simp_all add: original_step)

lemma original_load: "originalContainer (load r s) = original_sentence r"
  by (simp add: load_def loadNextSentence_def renderEditableSentence_def)

lemma useOriginal_render:
  "sentenceContainer (useOriginal s)
     = sentenceContainer (renderEditableSentence (trim (originalContainer s)) s) \<and>
   undoStack (useOriginal s) = []"
  by (simp add: useOriginal_def showFeedback_def renderEditableSentence_def)

lemma commitEdit_render:
  "sentenceContainer (commitEdit t s)
     = sentenceContainer (renderEditableSentence (trim t) s) \<and>
   undoStack (commitEdit t s) = []"
  by (simp add: commitEdit_def saveEdit_def renderEditableSentence_def)

text \<open>
  Claim C9: \<^verbatim>\<open>revertToOriginal()\<close> has the effect of
  \<^verbatim>\<open>commitEdit(original_sentence)\<close>. After a record is loaded, and whatever
  happens next short of another load, the original-sentence display still holds
  \<^verbatim>\<open>record.original_sentence\<close> verbatim, and reverting yields the same spans
  and the same empty undo history as committing that sentence.
\<close>

theorem revert_is_commit_of_original:
  assumes "\<forall>e\<in>set evs. \<not> is_load e"
  shows "originalContainer (run (load r s) evs) = original_sentence r \<and>
         sentenceContainer (useOriginal (run (load r s) evs))
           = sentenceContainer (commitEdit (original_sentence r) (run (load r s) evs)) \<and>
         undoStack (useOriginal (run (load r s) evs)) = [] \<and>
         undoStack (commitEdit (original_sentence r) (run (load r s) evs)) = [] \<and>
         tokens (useOriginal (run (load r s) evs)) = split (trim (original_sentence r))"
proof -
  have o: "originalContainer (run (load r s) evs) = original_sentence r"
    using assms by (simp add: original_run original_load)
  have "tokens (useOriginal (run (load r s) evs))
      = tokens (renderEditableSentence (trim (original_sentence r)) (run (load r s) evs))"
    by (simp add: tokens_def useOriginal_render o)
  then show ?thesis
    by (simp add: o useOriginal_render commitEdit_render tokens_render)
qed

theorem revert_is_commit_of_original_witness:
  "tokens (useOriginal (run cat_page [Click 1, Typed (ascii ''A dog ran''), SaveEdit, Click 0]))
     = [ascii ''The'', ascii ''cat'', ascii ''sat''] \<and>
   sentenceContainer (useOriginal (run cat_page [Click 1, Typed (ascii ''A dog ran''), SaveEdit, Click 0]))
     = sentenceContainer (commitEdit (ascii ''The cat sat'')
         (run cat_page [Click 1, Typed (ascii ''A dog ran''), SaveEdit, Click 0])) \<and>
   undoStack (useOriginal (run cat_page [Click 1, Typed (ascii ''A dog ran''), SaveEdit, Click 0])) = []"
proof -
  have t: "split (trim (ascii ''The cat sat'')) = [ascii ''The'', ascii ''cat'', ascii ''sat'']"
    by (simp add: trim_def is_ws_def ascii_def SP_def)
  show ?thesis
    using revert_is_commit_of_original[of "[Click 1, Typed (ascii ''A dog ran''), SaveEdit, Click 0]"
        cat_record init]
    by (simp add: cat_page_def[symmetric]) (simp add: cat_record_def t)
qed

end
